theory Spec2Isabelle
  imports Main "HOL-Library.Sublist"
begin

section \<open>Names and the string functions of the Python library\<close>

text \<open>
  A name is a \<^typ>\<open>string\<close>. The model is exact for ASCII names: \<open>str.lower\<close> maps
  \<open>A\<close>..\<open>Z\<close> to \<open>a\<close>..\<open>z\<close> and leaves every other character alone, and the character
  class \<open>[a-zA-Z0-9.]\<close> of the regular expression is read on character codes.
\<close>

definition is_upper :: "char \<Rightarrow> bool" where
  "is_upper c = (65 \<le> (of_char c :: nat) \<and> (of_char c :: nat) \<le> 90)"

definition is_lower :: "char \<Rightarrow> bool" where
  "is_lower c = (97 \<le> (of_char c :: nat) \<and> (of_char c :: nat) \<le> 122)"

definition is_digit :: "char \<Rightarrow> bool" where
  "is_digit c = (48 \<le> (of_char c :: nat) \<and> (of_char c :: nat) \<le> 57)"

definition lower_char :: "char \<Rightarrow> char" where
  "lower_char c = (if is_upper c then char_of ((of_char c :: nat) + 32) else c)"

text \<open>\<open>s.lower()\<close>\<close>

definition lower :: "string \<Rightarrow> string" where
  "lower s = map lower_char s"

text \<open>\<open>s.replace(a, b)\<close> for one-character strings \<open>a\<close> and \<open>b\<close>\<close>

definition replace :: "char \<Rightarrow> char \<Rightarrow> string \<Rightarrow> string" where
  "replace a b s = map (\<lambda>c. if c = a then b else c) s"

text \<open>The character class \<open>[a-zA-Z0-9.]\<close>; the pattern of \<open>get_new_name\<close> is its complement.\<close>

definition allowed :: "char \<Rightarrow> bool" where
  "allowed c = (is_lower c \<or> is_upper c \<or> is_digit c \<or> c = CHR ''.'')"

text \<open>
  \<open>re.sub(r'[^a-zA-Z0-9.]+', '-', s)\<close>: every maximal run of characters outside the class
  becomes one hyphen.
\<close>

function re_sub :: "string \<Rightarrow> string" where
  "re_sub [] = []"
| "re_sub (c # cs) =
     (if allowed c then c # re_sub cs
      else CHR ''-'' # re_sub (dropWhile (\<lambda>x. \<not> allowed x) cs))"
  by pat_completeness auto
termination
  by (relation "measure length") (auto simp: length_dropWhile_le less_Suc_eq_le)

text \<open>\<open>p.rfind(c)\<close> for a one-character string \<open>c\<close>: the highest index of \<open>c\<close>, or -1.\<close>

fun rfind :: "char \<Rightarrow> string \<Rightarrow> int" where
  "rfind c [] = - 1"
| "rfind c (x # xs) =
     (let r = rfind c xs in if 0 \<le> r then r + 1 else if x = c then 0 else - 1)"

text \<open>
  The loop of \<open>genericpath._splitext\<close> that skips leading dots: it answers whether some
  character of \<open>p[filenameIndex:dotIndex]\<close> is not a dot.
\<close>

function skip_leading_dots :: "string \<Rightarrow> nat \<Rightarrow> nat \<Rightarrow> bool" where
  "skip_leading_dots p filenameIndex dotIndex =
     (if filenameIndex < dotIndex
      then (if p ! filenameIndex \<noteq> CHR ''.'' then True
            else skip_leading_dots p (filenameIndex + 1) dotIndex)
      else False)"
  by pat_completeness auto
termination
  by (relation "measure (\<lambda>(p, i, d). d - i)") auto

declare skip_leading_dots.simps [simp del]

text \<open>
  \<open>os.path.splitext\<close> of \<open>posixpath\<close> (separator \<open>/\<close>, extension separator \<open>.\<close>):
  the extension starts at the last dot, unless that dot is not after the last separator
  or only dots stand between the separator and it.
\<close>

definition splitext :: "string \<Rightarrow> string \<times> string" where
  "splitext p =
     (let sepIndex = rfind CHR ''/'' p;
          dotIndex = rfind CHR ''.'' p
      in if dotIndex > sepIndex \<and> skip_leading_dots p (nat (sepIndex + 1)) (nat dotIndex)
         then (take (nat dotIndex) p, drop (nat dotIndex) p)
         else (p, []))"

section \<open>The name normalizer\<close>

definition should_rename :: "string \<Rightarrow> bool" where
  "should_rename name =
     (CHR '' '' \<in> set name \<or> CHR ''_'' \<in> set name \<or> name \<noteq> lower name)"

definition get_new_name :: "string \<Rightarrow> string" where
  "get_new_name name =
     (let (base, ext) = splitext name;
          base = replace CHR ''_'' CHR ''-'' (replace CHR '' '' CHR ''-'' base);
          base = re_sub base
      in lower (base @ ext))"

text \<open>
  The normalizer as the specification words it: the extension is the suffix that starts
  at the last dot of the name.
\<close>

definition spec_split :: "string \<Rightarrow> string \<times> string" where
  "spec_split name =
     (if CHR ''.'' \<in> set name
      then (rev (tl (dropWhile (\<lambda>c. c \<noteq> CHR ''.'') (rev name))),
            CHR ''.'' # rev (takeWhile (\<lambda>c. c \<noteq> CHR ''.'') (rev name)))
      else (name, []))"

definition normalize_spec :: "string \<Rightarrow> string" where
  "normalize_spec name =
     (let (base, ext) = spec_split name
      in lower (re_sub (replace CHR ''_'' CHR ''-'' (replace CHR '' '' CHR ''-'' base)) @ ext))"

text \<open>
  The strings that \<open>re_sub\<close> leaves alone: only characters of the class and single hyphens,
  no hyphen next to another.
\<close>

fun tidy :: "string \<Rightarrow> bool" where
  "tidy [] = True"
| "tidy [c] = (allowed c \<or> c = CHR ''-'')"
| "tidy (c # d # cs) = ((allowed c \<or> (c = CHR ''-'' \<and> allowed d)) \<and> tidy (d # cs))"

section \<open>The file system\<close>

text \<open>
  A path is the list of its components: \<open>os.path.join(d, e)\<close> with a name \<open>e\<close> read from
  \<open>os.listdir\<close> appends a component, \<open>os.path.basename\<close> is the last component. The file
  system is a tree; a directory is the list of its entries in the order \<open>os.listdir\<close>
  gives them. Files carry an identity. Symbolic links are not followed.
\<close>

type_synonym path = "string list"

datatype node = File nat | Symlink | Dir "(string \<times> node) list"

type_synonym plan = "(path \<times> path) list"

fun islink :: "node \<Rightarrow> bool" where
  "islink Symlink = True"
| "islink _ = False"

fun isdir :: "node \<Rightarrow> bool" where
  "isdir (Dir es) = True"
| "isdir _ = False"

definition basename :: "path \<Rightarrow> string" where
  "basename p = (if p = [] then [] else last p)"

definition path_join :: "path \<Rightarrow> string \<Rightarrow> path" where
  "path_join a b = a @ [b]"

definition is_hidden :: "path \<Rightarrow> bool" where
  "is_hidden file_path = (case basename file_path of [] \<Rightarrow> False | c # cs \<Rightarrow> c = CHR ''.'')"

fun lookup :: "node \<Rightarrow> path \<Rightarrow> node option" where
  "lookup n [] = Some n"
| "lookup (Dir es) (c # cs) = (case map_of es c of None \<Rightarrow> None | Some m \<Rightarrow> lookup m cs)"
| "lookup _ (c # cs) = None"

fun modify :: "path \<Rightarrow> ((string \<times> node) list \<Rightarrow> (string \<times> node) list) \<Rightarrow> node \<Rightarrow> node" where
  "modify [] f (Dir es) = Dir (f es)"
| "modify (c # cs) f (Dir es) = Dir (map (\<lambda>(k, n). if k = c then (k, modify cs f n) else (k, n)) es)"
| "modify p f n = n"

subsection \<open>The rename system call\<close>

text \<open>
  \<open>os.rename(src, dst)\<close> with the behaviour of POSIX \<open>rename(2)\<close>: it fails when the
  source or the directory of the destination is missing, when a directory would move into
  itself, when a directory would replace a non-empty directory or a non-directory, and
  when a non-directory would replace a directory; renaming an entry to itself succeeds
  and changes nothing; otherwise the destination (if any) is replaced.
\<close>

datatype oserror = ENOENT | ENOTDIR | EISDIR | ENOTEMPTY | EINVAL

definition detach :: "node \<Rightarrow> path \<Rightarrow> node" where
  "detach t p = modify (butlast p) (filter (\<lambda>(k, n). k \<noteq> last p)) t"

definition attach :: "node \<Rightarrow> path \<Rightarrow> node \<Rightarrow> node" where
  "attach t p s =
     modify (butlast p) (\<lambda>es. filter (\<lambda>(k, n). k \<noteq> last p) es @ [(last p, s)]) t"

definition os_rename :: "node \<Rightarrow> path \<Rightarrow> path \<Rightarrow> oserror + node" where
  "os_rename t src dst =
     (if src = [] \<or> dst = [] then Inl ENOENT
      else case lookup t src of
        None \<Rightarrow> Inl ENOENT
      | Some s \<Rightarrow>
          (case lookup t (butlast dst) of
             None \<Rightarrow> Inl ENOENT
           | Some (Dir es) \<Rightarrow>
               if src = dst then Inr t
               else if prefix src dst then Inl EINVAL
               else (case lookup t dst of
                       None \<Rightarrow> Inr (attach (detach t src) dst s)
                     | Some old \<Rightarrow>
                         if isdir s
                         then (case old of
                                 Dir [] \<Rightarrow> Inr (attach (detach t src) dst s)
                               | Dir (e # es') \<Rightarrow> Inl ENOTEMPTY
                               | _ \<Rightarrow> Inl ENOTDIR)
                         else if isdir old then Inl EISDIR
                         else Inr (attach (detach t src) dst s))
           | Some _ \<Rightarrow> Inl ENOTDIR))"

section \<open>The tree walker\<close>

text \<open>
  \<open>collect_renames\<close> gets the path of a directory together with what the file system
  holds there: \<open>os.listdir(directory_path)\<close> is the list of names of \<open>listing\<close>, and
  \<open>os.path.islink(entry_path)\<close> and \<open>os.path.isdir(entry_path)\<close> read the node listed under
  the name (the link test comes first, so a link to a directory is skipped as a link).
  \<open>collect_loop\<close> is the \<open>for\<close> loop, with the lists \<open>file_renames\<close> and \<open>dir_renames\<close>
  built so far. No renaming has happened yet when the walker runs, so the recursive call
  sees the listing of the subdirectory as it is stored in the tree.
\<close>

fun collect_renames :: "path \<Rightarrow> (string \<times> node) list \<Rightarrow> plan"
  and collect_loop :: "path \<Rightarrow> (string \<times> node) list \<Rightarrow> plan \<Rightarrow> plan \<Rightarrow> plan \<times> plan"
where
  "collect_renames directory_path listing =
     (let (file_renames, dir_renames) = collect_loop directory_path listing [] []
      in file_renames @ dir_renames)"
| "collect_loop directory_path [] file_renames dir_renames = (file_renames, dir_renames)"
| "collect_loop directory_path ((entry, n) # rest) file_renames dir_renames =
     (let entry_path = path_join directory_path entry
      in if is_hidden entry_path \<or> islink n
         then collect_loop directory_path rest file_renames dir_renames
         else
           let new_name = get_new_name entry;
               new_path = path_join directory_path new_name
           in (case n of
                 Dir sub \<Rightarrow>
                   collect_loop directory_path rest
                     (file_renames @ collect_renames entry_path sub)
                     (dir_renames @ [(entry_path, new_path)])
               | _ \<Rightarrow>
                   if should_rename entry
                   then collect_loop directory_path rest
                          (file_renames @ [(entry_path, new_path)]) dir_renames
                   else collect_loop directory_path rest file_renames dir_renames))"

section \<open>The rename executor\<close>

text \<open>The lines written through \<open>logging\<close>, with the values they are formatted from.\<close>

datatype message =
    Dry_run_info string nat string
  | Renamed_info string nat string
  | Rename_error string oserror
  | Nothing_to_undo_info
  | Undo_info string nat string
  | Undo_error oserror

text \<open>The Python exceptions that leave \<open>rename_recursively\<close>.\<close>

datatype error = ValueError | FileNotFoundError | NotADirectoryError

text \<open>
  What a run changes: the file system, the list \<open>rename_log\<close> that \<open>rename_entry\<close>
  appends to, and the logging output.
\<close>

record run_state =
  files :: node
  rename_log :: "(path \<times> path) list"
  report :: "message list"

definition rename_entry :: "path \<Rightarrow> path \<Rightarrow> bool \<Rightarrow> nat \<Rightarrow> run_state \<Rightarrow> run_state" where
  "rename_entry old_path new_name dry_run max_name_length s =
     (let old_file_name = basename old_path;
          new_file_name = basename new_name
      in if dry_run
         then s\<lparr>report := report s @ [Dry_run_info old_file_name max_name_length new_file_name]\<rparr>
         else (case os_rename (files s) old_path new_name of
                 Inr t \<Rightarrow>
                   s\<lparr>files := t,
                     report := report s @ [Renamed_info old_file_name max_name_length new_file_name],
                     rename_log := rename_log s @ [(new_name, old_path)]\<rparr>
               | Inl err \<Rightarrow>
                   s\<lparr>report := report s @ [Rename_error old_file_name err]\<rparr>))"

text \<open>\<open>max(...)\<close> of a sequence of lengths: \<open>ValueError\<close> on the empty sequence.\<close>

fun py_max :: "nat list \<Rightarrow> error + nat" where
  "py_max [] = Inl ValueError"
| "py_max (x # xs) = Inr (fold max xs x)"

text \<open>The loop \<open>for old_path, new_path in to_rename\<close>.\<close>

fun rename_loop :: "plan \<Rightarrow> bool \<Rightarrow> nat \<Rightarrow> run_state \<Rightarrow> run_state" where
  "rename_loop [] dry_run max_name_length s = s"
| "rename_loop ((old_path, new_path) # rest) dry_run max_name_length s =
     rename_loop rest dry_run max_name_length
       (rename_entry old_path new_path dry_run max_name_length s)"

definition rename_recursively :: "node \<Rightarrow> path \<Rightarrow> bool \<Rightarrow> error + run_state" where
  "rename_recursively t directory_path dry_run =
     (case lookup t directory_path of
        None \<Rightarrow> Inl FileNotFoundError
      | Some (Dir listing) \<Rightarrow>
          (let to_rename = collect_renames directory_path listing
           in case py_max (map (\<lambda>(old, new). length (basename old)) to_rename) of
                Inl e \<Rightarrow> Inl e
              | Inr max_name_length \<Rightarrow>
                  Inr (rename_loop to_rename dry_run max_name_length
                         \<lparr>files = t, rename_log = [], report = []\<rparr>))
      | Some _ \<Rightarrow> Inl NotADirectoryError)"

section \<open>The undo engine\<close>

text \<open>The loop \<open>for new_path, old_path in reversed(rename_log)\<close>, given the reversed log.\<close>

fun undo_loop :: "(path \<times> path) list \<Rightarrow> nat \<Rightarrow> node \<times> message list \<Rightarrow> node \<times> message list" where
  "undo_loop [] max_name_length w = w"
| "undo_loop ((new_path, old_path) # rest) max_name_length (t, out) =
     (let new_file_name = basename new_path;
          old_file_name = basename old_path
      in case os_rename t new_path old_path of
           Inr t' \<Rightarrow>
             undo_loop rest max_name_length
               (t', out @ [Undo_info new_file_name max_name_length old_file_name])
         | Inl err \<Rightarrow> undo_loop rest max_name_length (t, out @ [Undo_error err]))"


section \<open>Notions used to state the properties\<close>

text \<open>What a path holds: a file (with its identity), a link, a directory, or nothing.\<close>

datatype kind = Is_file nat | Is_link | Is_dir

fun kind_of :: "node \<Rightarrow> kind" where
  "kind_of (File i) = Is_file i"
| "kind_of Symlink = Is_link"
| "kind_of (Dir es) = Is_dir"

definition entry_at :: "node \<Rightarrow> path \<Rightarrow> kind option" where
  "entry_at t p = map_option kind_of (lookup t p)"

definition isdir_at :: "node \<Rightarrow> path \<Rightarrow> bool" where
  "isdir_at t p = (entry_at t p = Some Is_dir)"

text \<open>Names are distinct in every directory of the tree.\<close>

fun wf_node :: "node \<Rightarrow> bool" where
  "wf_node (Dir es) = (distinct (map fst es) \<and> (\<forall>n\<in>set (map snd es). wf_node n))"
| "wf_node _ = True"

text \<open>
  The relative path \<open>rel\<close> names an entry below \<open>listing\<close>, and neither that entry nor a
  directory on the way to it is hidden or a symbolic link.
\<close>

fun reached :: "(string \<times> node) list \<Rightarrow> path \<Rightarrow> bool" where
  "reached listing [] = False"
| "reached listing (c # cs) =
     (case map_of listing c of
        None \<Rightarrow> False
      | Some n \<Rightarrow>
          \<not> is_hidden [c] \<and> \<not> islink n \<and>
          (cs = [] \<or> (case n of Dir sub \<Rightarrow> reached sub cs | _ \<Rightarrow> False)))"


text \<open>The ordering the specification words: all file items, then all directory items.\<close>

definition files_then_dirs :: "node \<Rightarrow> plan \<Rightarrow> bool" where
  "files_then_dirs t plan =
     (plan = filter (\<lambda>item. \<not> isdir_at t (fst item)) plan @
             filter (\<lambda>item. isdir_at t (fst item)) plan)"

text \<open>
  Shallow-first directory items: no directory item is followed by the item of a
  directory that contains it.
\<close>

definition shallow_first :: "node \<Rightarrow> plan \<Rightarrow> bool" where
  "shallow_first t plan =
     sorted_wrt (\<lambda>x y. \<not> strict_prefix (fst y) (fst x))
       (filter (\<lambda>item. isdir_at t (fst item)) plan)"

text \<open>The parts of a plan: what goes to \<open>file_renames\<close> and what goes to \<open>dir_renames\<close>.\<close>

definition skipped :: "path \<Rightarrow> string \<times> node \<Rightarrow> bool" where
  "skipped d en = (is_hidden (path_join d (fst en)) \<or> islink (snd en))"

definition item_of :: "path \<Rightarrow> string \<Rightarrow> path \<times> path" where
  "item_of d e = (path_join d e, path_join d (get_new_name e))"

definition file_part :: "path \<Rightarrow> string \<times> node \<Rightarrow> plan" where
  "file_part d en =
     (if skipped d en then []
      else case snd en of
             Dir sub \<Rightarrow> collect_renames (path_join d (fst en)) sub
           | _ \<Rightarrow> if should_rename (fst en) then [item_of d (fst en)] else [])"

definition dir_part :: "path \<Rightarrow> string \<times> node \<Rightarrow> plan" where
  "dir_part d en = (if \<not> skipped d en \<and> isdir (snd en) then [item_of d (fst en)] else [])"

section \<open>Example trees\<close>

text \<open>The listings of a directory \<open>root\<close> that the examples below walk.\<close>

definition nested_listing :: "(string \<times> node) list" where
  "nested_listing = [(''A'', Dir [(''B'', Dir [])]), (''C.TXT'', File 0)]"

definition spec_listing :: "(string \<times> node) list" where
  "spec_listing = [(''A Dir'', Dir [(''sub_file.TXT'', File 0)])]"

definition mixed_listing :: "(string \<times> node) list" where
  "mixed_listing =
     [(''.git'', Dir [(''HEAD File'', File 1)]),
      (''My Link'', Symlink),
      (''A Dir'', Dir [(''sub_file.TXT'', File 2)])]"

definition hidden_listing :: "(string \<times> node) list" where
  "hidden_listing = [(''.git'', Dir [(''objects'', Dir [])]), (''B.txt'', File 0)]"

definition docs_listing :: "(string \<times> node) list" where
  "docs_listing = [(''docs'', Dir [(''Read Me.TXT'', File 0)])]"

section \<open>The normalizer: proofs\<close>












lemma tidy_tl: "tidy (c # s) \<Longrightarrow> tidy s"
  by (cases s) auto












lemma rfind_bounds: "- 1 \<le> rfind c p \<and> rfind c p < int (length p)"
  by (induction p) (auto simp: Let_def)

lemma rfind_neg_iff: "(rfind c p < 0) = (c \<notin> set p)"
  using rfind_bounds[of c] by (induction p) (auto simp: Let_def)

lemma rfind_absent: "c \<notin> set p \<Longrightarrow> rfind c p = - 1"
  using rfind_neg_iff[of c p] rfind_bounds[of c p] by simp



lemma rfind_last: "c \<notin> set e \<Longrightarrow> rfind c (b @ c # e) = int (length b)"
  by (induction b) (auto simp: Let_def rfind_absent)

lemma skip_leading_dots_iff:
  "skip_leading_dots p i d = (\<exists>k. i \<le> k \<and> k < d \<and> p ! k \<noteq> CHR ''.'')"
proof (induction p i d rule: skip_leading_dots.induct)
  case (1 p i d)
  show ?case
  proof (cases "i < d \<and> p ! i = CHR ''.''")
    case True
    then have "skip_leading_dots p i d = skip_leading_dots p (i + 1) d"
      by (subst skip_leading_dots.simps) simp
    also have "\<dots> = (\<exists>k. i + 1 \<le> k \<and> k < d \<and> p ! k \<noteq> CHR ''.'')"
      using 1 True by simp
    also have "\<dots> = (\<exists>k. i \<le> k \<and> k < d \<and> p ! k \<noteq> CHR ''.'')"
      using True by (metis Suc_eq_plus1 Suc_leD Suc_leI le_neq_implies_less)
    finally show ?thesis .
  next
    case False
    then show ?thesis
      by (subst skip_leading_dots.simps) auto
  qed
qed


lemma splitext_last_dot:
  assumes "CHR ''/'' \<notin> set (b @ CHR ''.'' # e)" "\<exists>c\<in>set b. c \<noteq> CHR ''.''" "CHR ''.'' \<notin> set e"
  shows "splitext (b @ CHR ''.'' # e) = (b, CHR ''.'' # e)"
proof -
  let ?p = "b @ CHR ''.'' # e"
  have s: "rfind CHR ''/'' ?p = - 1" using assms(1) by (rule rfind_absent)
  have d: "rfind CHR ''.'' ?p = int (length b)" using assms(3) by (rule rfind_last)
  from assms(2) obtain k where "k < length b" "b ! k \<noteq> CHR ''.''"
    by (auto simp: in_set_conv_nth)
  then have "skip_leading_dots ?p 0 (length b)"
    by (auto simp: skip_leading_dots_iff nth_append intro!: exI[of _ k])
  with s d show ?thesis by (simp add: splitext_def)
qed

lemma splitext_no_dot: "CHR ''.'' \<notin> set p \<Longrightarrow> splitext p = (p, [])"
  using rfind_bounds[of "CHR ''/''" p] by (simp add: splitext_def rfind_absent Let_def)








lemma spec_split_last_dot:
  "CHR ''.'' \<notin> set e \<Longrightarrow> spec_split (b @ CHR ''.'' # e) = (b, CHR ''.'' # e)"
proof -
  assume a: "CHR ''.'' \<notin> set e"
  have t: "takeWhile (\<lambda>c. c \<noteq> CHR ''.'') (rev e @ CHR ''.'' # rev b) = rev e"
    using a by (auto simp: takeWhile_tail)
  have d: "dropWhile (\<lambda>c. c \<noteq> CHR ''.'') (rev e @ CHR ''.'' # rev b) = CHR ''.'' # rev b"
    using a by (auto simp: dropWhile_append3)
  show ?thesis by (simp add: spec_split_def t d del: takeWhile_append dropWhile_append)
qed

lemma splitext_eq_spec_split:
  assumes "CHR ''/'' \<notin> set name" "name = [] \<or> hd name \<noteq> CHR ''.''"
  shows "splitext name = spec_split name"
proof (cases "CHR ''.'' \<in> set name")
  case False
  then show ?thesis by (simp add: splitext_no_dot spec_split_def)
next
  case True
  then obtain b e where n: "name = b @ CHR ''.'' # e" "CHR ''.'' \<notin> set e"
    by (meson split_list_last)
  have "b \<noteq> []" using assms(2) n(1) by auto
  then have "hd b \<in> set b" "hd b = hd name" using n(1) by auto
  then have "\<exists>c\<in>set b. c \<noteq> CHR ''.''" using assms(2) n(1) by auto
  then show ?thesis
    using assms(1) n splitext_last_dot[of b e] spec_split_last_dot[of e b] by simp
qed

text \<open>
  Claim C7. For every name that contains no path separator and does not begin with a dot
  (every name the tree walker passes on), \<open>get_new_name\<close> splits the name at its last dot,
  replaces spaces and underscores of the base by hyphens, collapses every run of
  characters outside \<open>[A-Za-z0-9.]\<close> of the base into one hyphen and lowercases the base
  with the extension; and \<open>My File_Name.TXT\<close> becomes \<open>my-file-name.txt\<close>.
\<close>

theorem get_new_name_refines:
  assumes "CHR ''/'' \<notin> set name" and "name = [] \<or> hd name \<noteq> CHR ''.''"
  shows "get_new_name name = normalize_spec name \<and>
         get_new_name ''My File_Name.TXT'' = ''my-file-name.txt''"
proof
  show "get_new_name name = normalize_spec name"
    by (simp add: get_new_name_def normalize_spec_def splitext_eq_spec_split[OF assms])
  show "get_new_name ''My File_Name.TXT'' = ''my-file-name.txt''"
    by code_simp
qed

theorem get_new_name_refines_witness:
  "get_new_name ''Holiday Photo_01.JPG'' = normalize_spec ''Holiday Photo_01.JPG'' \<and>
   normalize_spec ''Holiday Photo_01.JPG'' = ''holiday-photo-01.jpg''"
proof -
  have h1: "CHR ''/'' \<notin> set ''Holiday Photo_01.JPG''" by simp
  have h2: "''Holiday Photo_01.JPG'' = [] \<or> hd ''Holiday Photo_01.JPG'' \<noteq> CHR ''.''" by simp
  have "normalize_spec ''Holiday Photo_01.JPG'' = ''holiday-photo-01.jpg''" by code_simp
  then show ?thesis using get_new_name_refines[OF h1 h2] by simp
qed

text \<open>
  For a name that begins with a dot the library takes the whole name as base, so the
  underscore of \<open>.My_File\<close> is replaced, while a split at the last dot would leave it in
  the extension.
\<close>

theorem get_new_name_leading_dot_counterexample:
  "get_new_name ''.My_File'' = ''.my-file'' \<and> normalize_spec ''.My_File'' = ''.my_file'' \<and>
   get_new_name ''.My_File'' \<noteq> normalize_spec ''.My_File''"
  by code_simp

text \<open>
  Claim C1 asks that a name \<open>should_rename\<close> rejects is a fixed point of \<open>get_new_name\<close>.
  The name \<open>a!b.txt\<close> has no space, no underscore and no upper-case letter, and the
  regular expression of \<open>get_new_name\<close> still replaces its exclamation mark.
\<close>

theorem should_rename_misses_other_characters:
  "\<not> should_rename ''a!b.txt'' \<and> get_new_name ''a!b.txt'' = ''a-b.txt''"
  by code_simp

section \<open>The tree walker: proofs\<close>

lemma listing_induct:
  assumes step: "\<And>es. (\<And>e sub. (e, Dir sub) \<in> set es \<Longrightarrow> P sub) \<Longrightarrow> P es"
  shows "P es"
proof -
  have "\<forall>es. t = Dir es \<longrightarrow> P es" for t
  proof (induction t)
    case (Dir xs)
    show ?case
    proof (intro allI impI)
      fix es assume "Dir xs = Dir es"
      then have eq: "es = xs" by simp
      show "P es"
      proof (rule step)
        fix e sub assume "(e, Dir sub) \<in> set es"
        with eq have "(e, Dir sub) \<in> set xs" by simp
        then show "P sub" using Dir.IH[of "(e, Dir sub)" "Dir sub"] by simp
      qed
    qed
  qed simp_all
  then show ?thesis by simp
qed

lemma collect_loop_eq:
  "collect_loop d es fr dr =
     (fr @ concat (map (file_part d) es), dr @ concat (map (dir_part d) es))"
proof (induction es arbitrary: fr dr)
  case Nil
  show ?case by simp
next
  case (Cons en es)
  obtain e n where en: "en = (e, n)" by (cases en)
  show ?case
    unfolding en
    by (cases n) (simp_all add: Cons file_part_def dir_part_def skipped_def item_of_def Let_def)
qed

lemma collect_renames_eq:
  "collect_renames d es = concat (map (file_part d) es) @ concat (map (dir_part d) es)"
  by (simp add: collect_loop_eq)

declare collect_renames.simps [simp del]

lemma is_hidden_join: "is_hidden (path_join d e) = is_hidden [e]"
  by (simp add: is_hidden_def basename_def path_join_def)

lemma dir_part_item:
  "it \<in> set (dir_part d en) \<Longrightarrow>
     it = item_of d (fst en) \<and> isdir (snd en) \<and> \<not> skipped d en"
  by (auto simp: dir_part_def split: if_splits)

lemma file_part_item:
  "it \<in> set (file_part d en) \<Longrightarrow>
     \<not> skipped d en \<and>
     ((it = item_of d (fst en) \<and> \<not> isdir (snd en)) \<or>
      (\<exists>sub. snd en = Dir sub \<and> it \<in> set (collect_renames (path_join d (fst en)) sub)))"
  by (cases "snd en") (auto simp: file_part_def split: if_splits)

lemma in_collect_renames:
  "it \<in> set (collect_renames d es) \<Longrightarrow>
     \<exists>en\<in>set es. it \<in> set (file_part d en) \<or> it \<in> set (dir_part d en)"
  by (auto simp: collect_renames_eq)

lemma collect_renames_under:
  "it \<in> set (collect_renames d es) \<Longrightarrow> \<exists>e r. fst it = d @ e # r \<and> e \<in> fst ` set es"
proof (induction es arbitrary: d it rule: listing_induct)
  case (1 es)
  from in_collect_renames[OF 1(2)] obtain en where en: "en \<in> set es"
    and it: "it \<in> set (file_part d en) \<or> it \<in> set (dir_part d en)" by blast
  have direct: "it = item_of d (fst en) \<Longrightarrow> ?case"
    using en by (auto simp: item_of_def path_join_def)
  from it show ?case
  proof
    assume "it \<in> set (dir_part d en)"
    then show ?case using dir_part_item direct by blast
  next
    assume "it \<in> set (file_part d en)"
    from file_part_item[OF this] consider "it = item_of d (fst en)"
      | sub where "snd en = Dir sub" "it \<in> set (collect_renames (path_join d (fst en)) sub)"
      by blast
    then show ?case
    proof cases
      case 1
      then show ?thesis by (rule direct)
    next
      case 2
      have "(fst en, Dir sub) \<in> set es" using en 2(1) by (metis prod.collapse)
      from 1(1)[OF this 2(2)] obtain e r where "fst it = path_join d (fst en) @ e # r" by blast
      then show ?thesis using en by (auto simp: path_join_def)
    qed
  qed
qed

lemma file_part_under:
  "it \<in> set (file_part d en) \<Longrightarrow> \<exists>r. fst it = d @ fst en # r"
proof -
  assume "it \<in> set (file_part d en)"
  from file_part_item[OF this] consider "it = item_of d (fst en)"
    | sub where "it \<in> set (collect_renames (path_join d (fst en)) sub)"
    by blast
  then show ?thesis
  proof cases
    case 1
    then show ?thesis by (simp add: item_of_def path_join_def)
  next
    case 2
    from collect_renames_under[OF this] show ?thesis by (auto simp: path_join_def)
  qed
qed


lemma wf_node_sub: "wf_node (Dir es) \<Longrightarrow> (e, n) \<in> set es \<Longrightarrow> wf_node n"
  by force

lemma wf_node_map_of: "wf_node (Dir es) \<Longrightarrow> (e, n) \<in> set es \<Longrightarrow> map_of es e = Some n"
  by simp

lemma collect_renames_reached:
  "wf_node (Dir es) \<Longrightarrow> it \<in> set (collect_renames d es) \<Longrightarrow>
     \<exists>rel. fst it = d @ rel \<and> reached es rel"
proof (induction es arbitrary: d it rule: listing_induct)
  case (1 es)
  from in_collect_renames[OF 1(3)] obtain en where en: "en \<in> set es"
    and it: "it \<in> set (file_part d en) \<or> it \<in> set (dir_part d en)" by blast
  obtain e n where [simp]: "en = (e, n)" by (cases en)
  have m: "map_of es e = Some n" using 1(2) en by (simp add: wf_node_map_of)
  have vis: "\<not> is_hidden [e] \<and> \<not> islink n"
    using it file_part_item[of it d en] dir_part_item[of it d en]
    by (auto simp: skipped_def is_hidden_join)
  have direct: "it = item_of d e \<Longrightarrow> ?case"
  proof -
    assume "it = item_of d e"
    then have "fst it = d @ [e]" by (simp add: item_of_def path_join_def)
    moreover have "reached es [e]" using m vis by simp
    ultimately show ?case by blast
  qed
  from it show ?case
  proof
    assume "it \<in> set (dir_part d en)"
    then show ?case using dir_part_item[of it d en] direct by simp
  next
    assume "it \<in> set (file_part d en)"
    from file_part_item[OF this] consider "it = item_of d e"
      | sub where "n = Dir sub" "it \<in> set (collect_renames (path_join d e) sub)"
      by auto
    then show ?case
    proof cases
      case 1
      then show ?thesis by (rule direct)
    next
      case 2
      have mem: "(e, Dir sub) \<in> set es" using en 2(1) by simp
      have "wf_node (Dir sub)" using wf_node_sub[OF 1(2) mem] .
      from 1(1)[OF mem this 2(2)] obtain rel where
        rel: "fst it = path_join d e @ rel" "reached sub rel" by blast
      have "reached es (e # rel)" using m vis 2(1) rel(2) by simp
      moreover have "fst it = d @ e # rel" using rel(1) by (simp add: path_join_def)
      ultimately show ?thesis by blast
    qed
  qed
qed

lemma same_length_sorted:
  assumes "\<And>y. y \<in> set xs \<Longrightarrow> length (fst y) = k"
  shows "sorted_wrt (\<lambda>y z. \<not> strict_prefix (fst y) (fst z)) xs"
proof (rule sorted_wrt_mono_rel[of xs "\<lambda>_ _. True"])
  fix x y assume "x \<in> set xs" "y \<in> set xs"
  then have "length (fst x) = length (fst y)" using assms by simp
  then show "\<not> strict_prefix (fst x) (fst y)"
    by (auto dest: prefix_length_less)
qed simp

lemma dir_parts_length:
  "y \<in> set (concat (map (dir_part d) es)) \<Longrightarrow> length (fst y) = Suc (length d)"
  by (auto simp: dir_part_def item_of_def path_join_def split: if_splits)

lemma file_parts_length:
  "y \<in> set (concat (map (file_part d) es)) \<Longrightarrow> Suc (length d) \<le> length (fst y)"
  using file_part_under by fastforce

lemma different_heads:
  "e \<noteq> e' \<Longrightarrow> \<not> prefix (d @ e # r) (d @ e' # r')"
  by simp

lemma file_parts_sorted:
  assumes "distinct (map fst xs)"
    and "\<And>en. en \<in> set xs \<Longrightarrow> sorted_wrt (\<lambda>y z. \<not> strict_prefix (fst y) (fst z)) (file_part d en)"
  shows "sorted_wrt (\<lambda>y z. \<not> strict_prefix (fst y) (fst z)) (concat (map (file_part d) xs))"
  using assms
proof (induction xs)
  case Nil
  show ?case by simp
next
  case (Cons x xs)
  have cross: "\<not> strict_prefix (fst y) (fst z)"
    if "y \<in> set (file_part d x)" "z \<in> set (concat (map (file_part d) xs))" for y z
  proof -
    from that(2) obtain x' where x': "x' \<in> set xs" "z \<in> set (file_part d x')" by auto
    from file_part_under[OF that(1)] obtain r where r: "fst y = d @ fst x # r" by blast
    from file_part_under[OF x'(2)] obtain r' where r': "fst z = d @ fst x' # r'" by blast
    have "fst x \<noteq> fst x'" using Cons.prems(1) x'(1) by force
    then show ?thesis using r r' by (simp add: strict_prefix_def)
  qed
  show ?case using Cons cross by (simp add: sorted_wrt_append)
qed

lemma collect_renames_sorted:
  "wf_node (Dir es) \<Longrightarrow>
     sorted_wrt (\<lambda>y z. \<not> strict_prefix (fst y) (fst z)) (collect_renames d es)"
proof (induction es arbitrary: d rule: listing_induct)
  case (1 es)
  let ?R = "\<lambda>y z :: path \<times> path. \<not> strict_prefix (fst y) (fst z)"
  have part: "sorted_wrt ?R (file_part d en)" if "en \<in> set es" for en
  proof (cases "snd en")
    case (Dir sub)
    then have mem: "(fst en, Dir sub) \<in> set es" using that by (metis prod.collapse)
    have "wf_node (Dir sub)" using wf_node_sub[OF 1(2) mem] .
    from 1(1)[OF mem this] show ?thesis using Dir by (simp add: file_part_def)
  qed (simp_all add: file_part_def)
  have f: "sorted_wrt ?R (concat (map (file_part d) es))"
    using 1(2) part by (intro file_parts_sorted) simp_all
  have g: "sorted_wrt ?R (concat (map (dir_part d) es))"
    using dir_parts_length by (rule same_length_sorted)
  have cross: "?R y z"
    if "y \<in> set (concat (map (file_part d) es))" "z \<in> set (concat (map (dir_part d) es))" for y z
    using file_parts_length[OF that(1)] dir_parts_length[OF that(2)]
    by (auto dest: prefix_length_less)
  show ?case
    unfolding collect_renames_eq sorted_wrt_append using f g cross by blast
qed


lemma same_name_same_entry:
  "distinct (map fst es) \<Longrightarrow> a \<in> set es \<Longrightarrow> b \<in> set es \<Longrightarrow> fst a = fst b \<Longrightarrow> a = b"
  by (meson distinct_map inj_onD)

lemma file_parts_distinct:
  assumes "distinct (map fst xs)"
    and "\<And>en. en \<in> set xs \<Longrightarrow> distinct (map fst (file_part d en))"
  shows "distinct (map fst (concat (map (file_part d) xs)))"
  using assms
proof (induction xs)
  case Nil
  show ?case by simp
next
  case (Cons x xs)
  have cross: "fst y \<noteq> fst z"
    if "y \<in> set (file_part d x)" "z \<in> set (concat (map (file_part d) xs))" for y z
  proof -
    from that(2) obtain x' where x': "x' \<in> set xs" "z \<in> set (file_part d x')" by auto
    from file_part_under[OF that(1)] obtain r where r: "fst y = d @ fst x # r" by blast
    from file_part_under[OF x'(2)] obtain r' where r': "fst z = d @ fst x' # r'" by blast
    have "fst x \<noteq> fst x'" using Cons.prems(1) x'(1) by force
    then show ?thesis using r r' by simp
  qed
  have "distinct (map fst (file_part d x))" using Cons.prems(2) by simp
  moreover have "distinct (map fst (concat (map (file_part d) xs)))"
    using Cons by simp
  moreover have "set (map fst (file_part d x)) \<inter> set (map fst (concat (map (file_part d) xs))) = {}"
    using cross by (auto simp del: set_concat)
  ultimately show ?case by (simp del: set_concat set_map)
qed

lemma dir_parts_distinct:
  "distinct (map fst xs) \<Longrightarrow> distinct (map fst (concat (map (dir_part d) xs)))"
proof (induction xs)
  case Nil
  show ?case by simp
next
  case (Cons x xs)
  have cross: "fst y \<noteq> fst z"
    if "y \<in> set (dir_part d x)" "z \<in> set (concat (map (dir_part d) xs))" for y z
  proof -
    from that(2) obtain x' where x': "x' \<in> set xs" "z \<in> set (dir_part d x')" by auto
    have "fst x \<noteq> fst x'" using Cons.prems x'(1) by force
    then show ?thesis using dir_part_item[OF x'(2)] dir_part_item[OF that(1)]
      by (simp add: item_of_def path_join_def)
  qed
  have "distinct (map fst (dir_part d x))" by (simp add: dir_part_def)
  moreover have "distinct (map fst (concat (map (dir_part d) xs)))" using Cons by simp
  moreover have "set (map fst (dir_part d x)) \<inter> set (map fst (concat (map (dir_part d) xs))) = {}"
    using cross by (auto simp del: set_concat)
  ultimately show ?case by (simp del: set_concat set_map)
qed

lemma collect_renames_distinct:
  "wf_node (Dir es) \<Longrightarrow> distinct (map fst (collect_renames d es))"
proof (induction es arbitrary: d rule: listing_induct)
  case (1 es)
  have dn: "distinct (map fst es)" using 1(2) by simp
  have part: "distinct (map fst (file_part d en))" if "en \<in> set es" for en
  proof (cases "snd en")
    case (Dir sub)
    then have mem: "(fst en, Dir sub) \<in> set es" using that by (metis prod.collapse)
    have "wf_node (Dir sub)" using wf_node_sub[OF 1(2) mem] .
    from 1(1)[OF mem this] show ?thesis using Dir by (simp add: file_part_def)
  qed (simp_all add: file_part_def)
  have f: "distinct (map fst (concat (map (file_part d) es)))"
    using dn part by (rule file_parts_distinct)
  have g: "distinct (map fst (concat (map (dir_part d) es)))"
    using dn by (rule dir_parts_distinct)
  have cross: "fst y \<noteq> fst z"
    if y: "y \<in> set (concat (map (file_part d) es))"
      and z: "z \<in> set (concat (map (dir_part d) es))" for y z
  proof
    assume eq: "fst y = fst z"
    from y obtain a where a: "a \<in> set es" "y \<in> set (file_part d a)" by auto
    from z obtain b where b: "b \<in> set es" "z \<in> set (dir_part d b)" by auto
    from dir_part_item[OF b(2)] have zb: "fst z = d @ [fst b]" "isdir (snd b)"
      by (simp_all add: item_of_def path_join_def)
    from file_part_under[OF a(2)] obtain r where r: "fst y = d @ fst a # r" by blast
    from eq zb(1) r have "fst a = fst b" by simp
    with dn a(1) b(1) have ab: "a = b" by (rule same_name_same_entry)
    from file_part_item[OF a(2)] zb(2) ab obtain sub where
      "y \<in> set (collect_renames (path_join d (fst a)) sub)" by auto
    from collect_renames_under[OF this] obtain e r' where "fst y = path_join d (fst a) @ e # r'"
      by blast
    with eq zb(1) ab show False by (simp add: path_join_def)
  qed
  have "set (map fst (concat (map (file_part d) es))) \<inter>
        set (map fst (concat (map (dir_part d) es))) = {}"
    using cross by (auto simp del: set_concat)
  with f g show ?case
    unfolding collect_renames_eq map_append distinct_append by blast
qed

lemma collect_renames_has_dir:
  "reached es rel \<Longrightarrow> lookup (Dir es) rel = Some (Dir sub) \<Longrightarrow>
     (d @ rel, d @ butlast rel @ [get_new_name (last rel)]) \<in> set (collect_renames d es)"
proof (induction rel arbitrary: es d)
  case Nil
  then show ?case by simp
next
  case (Cons c cs)
  from Cons.prems(1) obtain n where n: "map_of es c = Some n" "\<not> is_hidden [c]" "\<not> islink n"
    and rest: "cs = [] \<or> (\<exists>sub'. n = Dir sub' \<and> reached sub' cs)"
    by (auto split: option.splits node.splits)
  have mem: "(c, n) \<in> set es" using n(1) by (rule map_of_SomeD)
  have ns: "\<not> skipped d (c, n)" using n by (simp add: skipped_def is_hidden_join)
  show ?case
  proof (cases "cs = []")
    case True
    then have "n = Dir sub" using Cons.prems(2) n(1) by simp
    then have "item_of d c \<in> set (dir_part d (c, n))" using ns by (simp add: dir_part_def)
    then have "item_of d c \<in> set (collect_renames d es)"
      using mem unfolding collect_renames_eq by auto
    then show ?thesis using True by (simp add: item_of_def path_join_def)
  next
    case False
    with rest obtain sub' where sub': "n = Dir sub'" "reached sub' cs" by blast
    have "lookup (Dir sub') cs = Some (Dir sub)" using Cons.prems(2) n(1) sub'(1) False
      by (cases cs) simp_all
    from Cons.IH[OF sub'(2) this, of "path_join d c"]
    have "(path_join d c @ cs, path_join d c @ butlast cs @ [get_new_name (last cs)])
            \<in> set (file_part d (c, n))"
      using ns sub'(1) by (simp add: file_part_def)
    then have "(path_join d c @ cs, path_join d c @ butlast cs @ [get_new_name (last cs)])
            \<in> set (collect_renames d es)"
      using mem unfolding collect_renames_eq by auto
    then show ?thesis using False by (simp add: path_join_def)
  qed
qed

lemma is_hidden_append: "xs \<noteq> [] \<Longrightarrow> is_hidden (d @ xs) = is_hidden [last xs]"
  by (simp add: is_hidden_def basename_def)

lemma reached_prefixes:
  "reached es rel \<Longrightarrow> 0 < k \<Longrightarrow> k \<le> length rel \<Longrightarrow>
     \<not> is_hidden (d @ take k rel) \<and> (\<exists>n. lookup (Dir es) (take k rel) = Some n \<and> \<not> islink n)"
proof (induction rel arbitrary: es k d)
  case Nil
  then show ?case by simp
next
  case (Cons c cs)
  from Cons.prems(1) obtain n where n: "map_of es c = Some n" "\<not> is_hidden [c]" "\<not> islink n"
    and rest: "cs = [] \<or> (\<exists>sub'. n = Dir sub' \<and> reached sub' cs)"
    by (auto split: option.splits node.splits)
  obtain k' where k: "k = Suc k'" using Cons.prems(2) by (cases k) auto
  show ?case
  proof (cases k')
    case 0
    then show ?thesis using n k by (simp add: is_hidden_append)
  next
    case (Suc m)
    then have "cs \<noteq> []" using Cons.prems(3) k by auto
    with rest obtain sub' where sub': "n = Dir sub'" "reached sub' cs" by blast
    have "0 < k'" "k' \<le> length cs" using Suc Cons.prems(3) k by simp_all
    from Cons.IH[OF sub'(2) this, of "d @ [c]"] show ?thesis
      using n(1) sub'(1) k by simp
  qed
qed

lemma reached_nonempty: "reached es rel \<Longrightarrow> rel \<noteq> []"
  by (cases rel) simp_all


lemma dir_parts_eq:
  "concat (map (dir_part d) es) =
     map (\<lambda>en. item_of d (fst en)) (filter (\<lambda>en. \<not> skipped d en \<and> isdir (snd en)) es)"
  by (induction es) (simp_all add: dir_part_def)

lemma nested_plan:
  "collect_renames [''root''] nested_listing =
     [([''root'', ''A'', ''B''], [''root'', ''A'', ''b'']),
      ([''root'', ''C.TXT''], [''root'', ''c.txt'']),
      ([''root'', ''A''], [''root'', ''a''])]"
  by code_simp

lemma spec_plan:
  "collect_renames [''root''] spec_listing =
     [([''root'', ''A Dir'', ''sub_file.TXT''], [''root'', ''A Dir'', ''sub-file.txt'']),
      ([''root'', ''A Dir''], [''root'', ''a-dir''])]"
  by code_simp

lemma mixed_plan:
  "collect_renames [''root''] mixed_listing =
     [([''root'', ''A Dir'', ''sub_file.TXT''], [''root'', ''A Dir'', ''sub-file.txt'']),
      ([''root'', ''A Dir''], [''root'', ''a-dir''])]"
  by code_simp

text \<open>
  Claim C3, as the code has it. The plan of a directory ends with the rename items of its
  own subdirectories (not hidden, not links), in listing order. Every item before them is
  the item of one of its files or was collected inside one of its subdirectories. No item
  is followed by an item that lies inside it: a directory's item comes after the items of
  its subdirectories (deep-first).
\<close>

theorem plan_shape:
  assumes "wf_node (Dir listing)"
  shows "\<exists>below.
     collect_renames directory_path listing =
       below @ map (\<lambda>en. item_of directory_path (fst en))
                 (filter (\<lambda>en. \<not> skipped directory_path en \<and> isdir (snd en)) listing) \<and>
     (\<forall>item\<in>set below. \<exists>en\<in>set listing.
        (\<not> isdir (snd en) \<and> fst item = path_join directory_path (fst en)) \<or>
        (isdir (snd en) \<and> strict_prefix (path_join directory_path (fst en)) (fst item))) \<and>
     sorted_wrt (\<lambda>x y. \<not> strict_prefix (fst x) (fst y)) (collect_renames directory_path listing)"
proof (intro exI conjI)
  let ?below = "concat (map (file_part directory_path) listing)"
  show "collect_renames directory_path listing =
       ?below @ map (\<lambda>en. item_of directory_path (fst en))
                 (filter (\<lambda>en. \<not> skipped directory_path en \<and> isdir (snd en)) listing)"
    by (simp only: collect_renames_eq dir_parts_eq)
  show "\<forall>item\<in>set ?below. \<exists>en\<in>set listing.
        (\<not> isdir (snd en) \<and> fst item = path_join directory_path (fst en)) \<or>
        (isdir (snd en) \<and> strict_prefix (path_join directory_path (fst en)) (fst item))"
  proof
    fix item assume "item \<in> set ?below"
    then obtain en where en: "en \<in> set listing" "item \<in> set (file_part directory_path en)"
      by auto
    from file_part_item[OF en(2)] consider
        "item = item_of directory_path (fst en)" "\<not> isdir (snd en)"
      | sub where "snd en = Dir sub"
          "item \<in> set (collect_renames (path_join directory_path (fst en)) sub)"
      by blast
    then have "(\<not> isdir (snd en) \<and> fst item = path_join directory_path (fst en)) \<or>
        (isdir (snd en) \<and> strict_prefix (path_join directory_path (fst en)) (fst item))"
    proof cases
      case 1
      then show ?thesis by (simp add: item_of_def)
    next
      case 2
      from collect_renames_under[OF 2(2)] obtain e r where
        "fst item = path_join directory_path (fst en) @ e # r" by blast
      then show ?thesis using 2(1) by (simp add: strict_prefix_def)
    qed
    with en(1) show "\<exists>en\<in>set listing.
        (\<not> isdir (snd en) \<and> fst item = path_join directory_path (fst en)) \<or>
        (isdir (snd en) \<and> strict_prefix (path_join directory_path (fst en)) (fst item))"
      by blast
  qed
  show "sorted_wrt (\<lambda>x y. \<not> strict_prefix (fst x) (fst y)) (collect_renames directory_path listing)"
    using assms by (rule collect_renames_sorted)
qed

theorem plan_shape_witness:
  "wf_node (Dir nested_listing) \<and>
   (\<exists>below.
     collect_renames [''root''] nested_listing =
       below @ map (\<lambda>en. item_of [''root''] (fst en))
                 (filter (\<lambda>en. \<not> skipped [''root''] en \<and> isdir (snd en)) nested_listing) \<and>
     (\<forall>item\<in>set below. \<exists>en\<in>set nested_listing.
        (\<not> isdir (snd en) \<and> fst item = path_join [''root''] (fst en)) \<or>
        (isdir (snd en) \<and> strict_prefix (path_join [''root''] (fst en)) (fst item))) \<and>
     sorted_wrt (\<lambda>x y. \<not> strict_prefix (fst x) (fst y)) (collect_renames [''root''] nested_listing))"
proof -
  have h: "wf_node (Dir nested_listing)" by (simp add: nested_listing_def)
  from h plan_shape[OF h] show ?thesis by (rule conjI)
qed

text \<open>
  On \<open>root/A/B\<close> with the file \<open>root/C.TXT\<close> the plan is \<open>B\<close>, \<open>C.TXT\<close>, \<open>A\<close>: the directory
  \<open>B\<close> stands before a file, and before the directory \<open>A\<close> that contains it.
\<close>

theorem files_then_dirs_counterexample:
  "\<not> files_then_dirs (Dir [(''root'', Dir nested_listing)]) (collect_renames [''root''] nested_listing) \<and>
   \<not> shallow_first (Dir [(''root'', Dir nested_listing)]) (collect_renames [''root''] nested_listing)"
  unfolding nested_plan
  by (simp add: files_then_dirs_def shallow_first_def isdir_at_def entry_at_def nested_listing_def)

text \<open>
  Claim C4. In the plan of a directory tree, an item whose old path lies strictly inside
  the old path of another item stands before that item: everything inside a planned
  directory is renamed before the directory itself. For \<open>root/A Dir/sub_file.TXT\<close> the
  item of the file precedes the item that renames \<open>A Dir\<close> to \<open>a-dir\<close>.
\<close>

theorem inner_items_first:
  assumes "wf_node (Dir listing)"
    and "i < length (collect_renames directory_path listing)"
    and "j < length (collect_renames directory_path listing)"
    and "strict_prefix (fst (collect_renames directory_path listing ! j))
           (fst (collect_renames directory_path listing ! i))"
  shows "i < j \<and>
     collect_renames [''root''] [(''A Dir'', Dir [(''sub_file.TXT'', File 0)])] =
       [([''root'', ''A Dir'', ''sub_file.TXT''], [''root'', ''A Dir'', ''sub-file.txt'']),
        ([''root'', ''A Dir''], [''root'', ''a-dir''])]"
proof
  let ?plan = "collect_renames directory_path listing"
  have s: "sorted_wrt (\<lambda>y z. \<not> strict_prefix (fst y) (fst z)) ?plan"
    using assms(1) by (rule collect_renames_sorted)
  show "i < j"
  proof (rule ccontr)
    assume "\<not> i < j"
    moreover have "i \<noteq> j" using assms(4) by auto
    ultimately have "j < i" by simp
    from sorted_wrt_nth_less[OF s this assms(2)] assms(4) show False by simp
  qed
  show "collect_renames [''root''] [(''A Dir'', Dir [(''sub_file.TXT'', File 0)])] =
       [([''root'', ''A Dir'', ''sub_file.TXT''], [''root'', ''A Dir'', ''sub-file.txt'']),
        ([''root'', ''A Dir''], [''root'', ''a-dir''])]"
    using spec_plan by (simp add: spec_listing_def)
qed

theorem inner_items_first_witness:
  "wf_node (Dir spec_listing) \<and>
   strict_prefix (fst (collect_renames [''root''] spec_listing ! 1))
     (fst (collect_renames [''root''] spec_listing ! 0)) \<and> (0::nat) < 1"
proof -
  have h1: "wf_node (Dir spec_listing)" by (simp add: spec_listing_def)
  have h2: "0 < length (collect_renames [''root''] spec_listing)"
    and h3: "1 < length (collect_renames [''root''] spec_listing)"
    and h4: "strict_prefix (fst (collect_renames [''root''] spec_listing ! 1))
               (fst (collect_renames [''root''] spec_listing ! 0))"
    unfolding spec_plan by simp_all
  from inner_items_first[OF h1 h2 h3 h4] h1 h4 show ?thesis by simp
qed

text \<open>
  Claim C8. The old path of every plan item names an entry below the walked directory such
  that neither the entry nor any directory between the walked directory and the entry is
  hidden or a symbolic link. So hidden entries, links and everything inside a hidden or
  linked directory never appear in the plan.
\<close>

theorem plan_skips_hidden_and_links:
  assumes "wf_node (Dir listing)"
    and "(old_path, new_path) \<in> set (collect_renames directory_path listing)"
  shows "\<exists>rel. old_path = directory_path @ rel \<and> rel \<noteq> [] \<and>
     (\<forall>k. 0 < k \<and> k \<le> length rel \<longrightarrow>
        \<not> is_hidden (directory_path @ take k rel) \<and>
        (\<exists>n. lookup (Dir listing) (take k rel) = Some n \<and> \<not> islink n))"
proof -
  from collect_renames_reached[OF assms] obtain rel where
    rel: "old_path = directory_path @ rel" "reached listing rel" by auto
  show ?thesis
    using rel reached_nonempty[OF rel(2)] reached_prefixes[OF rel(2)] by blast
qed

theorem plan_skips_hidden_and_links_witness:
  "wf_node (Dir mixed_listing) \<and>
   collect_renames [''root''] mixed_listing =
     [([''root'', ''A Dir'', ''sub_file.TXT''], [''root'', ''A Dir'', ''sub-file.txt'']),
      ([''root'', ''A Dir''], [''root'', ''a-dir''])] \<and>
   (\<exists>rel. [''root'', ''A Dir'', ''sub_file.TXT''] = [''root''] @ rel \<and> rel \<noteq> [] \<and>
     (\<forall>k. 0 < k \<and> k \<le> length rel \<longrightarrow>
        \<not> is_hidden ([''root''] @ take k rel) \<and>
        (\<exists>n. lookup (Dir mixed_listing) (take k rel) = Some n \<and> \<not> islink n)))"
proof -
  have h1: "wf_node (Dir mixed_listing)" by (simp add: mixed_listing_def)
  have h2: "([''root'', ''A Dir'', ''sub_file.TXT''], [''root'', ''A Dir'', ''sub-file.txt''])
              \<in> set (collect_renames [''root''] mixed_listing)"
    unfolding mixed_plan by simp
  from h1 mixed_plan plan_skips_hidden_and_links[OF h1 h2] show ?thesis by blast
qed

lemma empty_plan_raises:
  "lookup t directory_path = Some (Dir listing) \<Longrightarrow> collect_renames directory_path listing = [] \<Longrightarrow>
     rename_recursively t directory_path dry_run = Inl ValueError"
  by (simp add: rename_recursively_def)

text \<open>
  Claim C2 asks that a run on a directory with an empty plan returns an empty log. The
  longest-name pre-pass of \<open>rename_recursively\<close> takes \<open>max\<close> of an empty sequence, which
  raises \<open>ValueError\<close>, with and without \<open>dry_run\<close>.
\<close>

theorem empty_directory_raises:
  "rename_recursively (Dir [(''root'', Dir [])]) [''root''] False = Inl ValueError \<and>
   rename_recursively (Dir [(''root'', Dir [])]) [''root''] True = Inl ValueError"
  by (simp add: rename_recursively_def collect_renames_eq)


section \<open>The file system: proofs\<close>

lemma lookup_append:
  "lookup t (p @ q) = (case lookup t p of None \<Rightarrow> None | Some n \<Rightarrow> lookup n q)"
  by (induction t p rule: lookup.induct) (auto split: option.splits)


lemma entry_at_append_None: "entry_at t p = None \<Longrightarrow> entry_at t (p @ r) = None"
  by (simp add: entry_at_def lookup_append)

lemma entry_at_dir: "(entry_at t p = Some Is_dir) = (\<exists>es. lookup t p = Some (Dir es))"
proof (cases "lookup t p")
  case None
  then show ?thesis by (simp add: entry_at_def)
next
  case (Some n)
  then show ?thesis by (cases n) (simp_all add: entry_at_def)
qed

lemma entry_at_None: "(entry_at t p = None) = (lookup t p = None)"
  by (simp add: entry_at_def)

lemma parent_is_dir:
  assumes "p \<noteq> []" "lookup t p = Some n"
  shows "\<exists>es. lookup t (butlast p) = Some (Dir es) \<and> map_of es (last p) = Some n"
proof -
  have "lookup t (butlast p @ [last p]) = Some n" using assms by simp
  then obtain m where m: "lookup t (butlast p) = Some m" "lookup m [last p] = Some n"
    by (auto simp: lookup_append split: option.splits)
  then show ?thesis by (cases m) (auto split: option.splits)
qed

lemma map_of_modify_entry:
  "map_of (map (\<lambda>(k, n). if k = c then (k, h n) else (k, n)) es) c' =
     (if c' = c then map_option h (map_of es c) else map_of es c')"
  by (induction es) auto

lemma map_of_without:
  "map_of (filter (\<lambda>(k, n). k \<noteq> l) es) c = (if c = l then None else map_of es c)"
  by (induction es) auto

lemma map_of_with:
  "map_of (filter (\<lambda>(k, n). k \<noteq> l) es @ [(l, s)]) c = (if c = l then Some s else map_of es c)"
  by (auto simp: map_of_without map_add_def split: option.splits)

lemma entry_at_modify_other:
  "\<not> prefix p q \<or> q = p \<Longrightarrow> entry_at (modify p f t) q = entry_at t q"
proof (induction p f t arbitrary: q rule: modify.induct)
  case (1 f es)
  then show ?case by (simp add: entry_at_def)
next
  case (2 c cs f es)
  show ?case
  proof (cases q)
    case Nil
    then show ?thesis by (simp add: entry_at_def)
  next
    case (Cons c' qs)
    show ?thesis
    proof (cases "c' = c")
      case False
      then show ?thesis using Cons by (simp add: entry_at_def map_of_modify_entry)
    next
      case True
      show ?thesis
      proof (cases "map_of es c")
        case None
        then show ?thesis using Cons True by (simp add: entry_at_def map_of_modify_entry)
      next
        case (Some n)
        then have "(c, n) \<in> set es" by (rule map_of_SomeD)
        moreover have "\<not> prefix cs qs \<or> qs = cs" using "2.prems" Cons True by simp
        ultimately have "entry_at (modify cs f n) qs = entry_at n qs"
          using "2.IH"[of "(c, n)" c n qs] by simp
        then show ?thesis using Cons True Some by (simp add: entry_at_def map_of_modify_entry)
      qed
    qed
  qed
qed simp_all

lemma lookup_modify_below:
  "lookup t p = Some (Dir es) \<Longrightarrow> lookup (modify p f t) (p @ r) = lookup (Dir (f es)) r"
proof (induction p arbitrary: t)
  case Nil
  then show ?case by simp
next
  case (Cons c cs)
  then obtain es0 where t: "t = Dir es0" by (cases t) simp_all
  with Cons.prems obtain n where n: "map_of es0 c = Some n" "lookup n cs = Some (Dir es)"
    by (auto split: option.splits)
  show ?case using t n Cons.IH[OF n(2)] by (simp add: map_of_modify_entry)
qed

lemma prefix_butlast:
  assumes "p \<noteq> []" "prefix p q"
  shows "prefix (butlast p) q \<and> q \<noteq> butlast p"
proof
  have "prefix (butlast p) p" by (rule prefixeq_butlast)
  then show "prefix (butlast p) q" using assms(2) by (rule prefix_order.trans)
  have "length (butlast p) < length p" using assms(1) by simp
  moreover have "length p \<le> length q" using assms(2) by (rule prefix_length_le)
  ultimately show "q \<noteq> butlast p" by auto
qed

lemma prefix_butlast_cases:
  assumes "p \<noteq> []" "prefix (butlast p) q" "q \<noteq> butlast p"
  obtains c r where "q = butlast p @ c # r" "prefix p q = (c = last p)"
proof -
  from assms(2) obtain z where z: "q = butlast p @ z" by (auto simp: prefix_def)
  with assms(3) obtain c r where cr: "z = c # r" by (cases z) auto
  have "prefix p q = prefix (butlast p @ [last p]) (butlast p @ c # r)"
    using assms(1) z cr by simp
  also have "\<dots> = (c = last p)" by auto
  finally show ?thesis using that z cr by simp
qed

lemma entry_at_detach:
  assumes "p \<noteq> []" "lookup t p \<noteq> None"
  shows "entry_at (detach t p) q = (if prefix p q then None else entry_at t q)"
proof -
  from assms obtain n where "lookup t p = Some n" by auto
  from parent_is_dir[OF assms(1) this] obtain es where
    es: "lookup t (butlast p) = Some (Dir es)" by blast
  show ?thesis
  proof (cases "prefix (butlast p) q \<and> q \<noteq> butlast p")
    case False
    then have "\<not> prefix p q"
      using assms(1) prefix_butlast[of p q] by blast
    with False show ?thesis by (simp add: detach_def entry_at_modify_other)
  next
    case True
    then obtain c r where q: "q = butlast p @ c # r" "prefix p q = (c = last p)"
      using prefix_butlast_cases[OF assms(1), of q] by blast
    have "lookup t q = lookup (Dir es) (c # r)" using es q(1) by (simp add: lookup_append)
    then show ?thesis
      using q lookup_modify_below[OF es, of _ "c # r"]
      by (simp add: detach_def entry_at_def map_of_without)
  qed
qed

lemma entry_at_attach:
  assumes "p \<noteq> []" "lookup t (butlast p) = Some (Dir es)"
  shows "entry_at (attach t p s) q =
           (if prefix p q then entry_at s (drop (length p) q) else entry_at t q)"
proof (cases "prefix (butlast p) q \<and> q \<noteq> butlast p")
  case False
  then have "\<not> prefix p q"
    using assms(1) prefix_butlast[of p q] by blast
  with False show ?thesis by (simp add: attach_def entry_at_modify_other)
next
  case True
  then obtain c r where q: "q = butlast p @ c # r" "prefix p q = (c = last p)"
    using prefix_butlast_cases[OF assms(1), of q] by blast
  have l: "lookup t q = lookup (Dir es) (c # r)" using assms(2) q(1) by (simp add: lookup_append)
  have d: "c = last p \<Longrightarrow> drop (length p) q = r"
  proof -
    assume "c = last p"
    then have "q = p @ r" using q(1) assms(1) by simp
    then show ?thesis by simp
  qed
  have "lookup (attach t p s) q =
          lookup (Dir (filter (\<lambda>(k, n). k \<noteq> last p) es @ [(last p, s)])) (c # r)"
    unfolding attach_def q(1) using assms(2) by (rule lookup_modify_below)
  also have "\<dots> = (case (if c = last p then Some s else map_of es c) of
                      None \<Rightarrow> None | Some m \<Rightarrow> lookup m r)"
    by (simp only: lookup.simps map_of_with)
  finally show ?thesis using q(2) l d by (simp add: entry_at_def)
qed


lemma os_rename_Inr:
  assumes "os_rename t src dst = Inr t'"
  shows "src \<noteq> [] \<and> dst \<noteq> [] \<and> (\<exists>s. lookup t src = Some s) \<and>
         (\<exists>es. lookup t (butlast dst) = Some (Dir es))"
  using assms
  by (auto simp: os_rename_def split: if_splits option.splits node.splits)

lemma os_rename_self: "os_rename t p p = Inr t' \<Longrightarrow> t' = t"
  by (auto simp: os_rename_def split: if_splits option.splits node.splits)

lemma os_rename_self_ok:
  assumes "p \<noteq> []" "lookup t p \<noteq> None"
  shows "os_rename t p p = Inr t"
proof -
  from assms obtain n where n: "lookup t p = Some n" by auto
  from parent_is_dir[OF assms(1) n] obtain es where "lookup t (butlast p) = Some (Dir es)"
    by blast
  with assms(1) n show ?thesis by (simp add: os_rename_def)
qed

lemma os_rename_moves:
  assumes "os_rename t src dst = Inr t'" "src \<noteq> dst"
  shows "\<exists>s. lookup t src = Some s \<and> \<not> prefix src dst \<and> t' = attach (detach t src) dst s \<and>
             (lookup t dst = None \<or> lookup t dst = Some (Dir []) \<or>
              (\<exists>old. lookup t dst = Some old \<and> \<not> isdir old))"
  using assms
  by (auto simp: os_rename_def split: if_splits option.splits node.splits list.splits)


lemma entry_at_os_rename:
  assumes "os_rename t src dst = Inr t'" "src \<noteq> dst"
  shows "entry_at t' q =
           (if prefix dst q then entry_at t (src @ drop (length dst) q)
            else if prefix src q then None else entry_at t q)"
proof -
  from os_rename_Inr[OF assms(1)] obtain es where
    ne: "src \<noteq> []" "dst \<noteq> []" and es: "lookup t (butlast dst) = Some (Dir es)" by blast
  from os_rename_moves[OF assms] obtain s where
    s: "lookup t src = Some s" "\<not> prefix src dst" "t' = attach (detach t src) dst s" by blast
  have ex: "lookup t src \<noteq> None" using s(1) by simp
  have "\<not> prefix src (butlast dst)"
    using s(2) prefixeq_butlast[of dst] prefix_order.trans by blast
  then have "entry_at (detach t src) (butlast dst) = Some Is_dir"
    using es by (simp add: entry_at_detach[OF ne(1) ex] entry_at_dir)
  then obtain es' where es': "lookup (detach t src) (butlast dst) = Some (Dir es')"
    by (auto simp: entry_at_dir)
  have sub: "entry_at s r = entry_at t (src @ r)" for r
    using s(1) by (simp add: entry_at_def lookup_append)
  show ?thesis
    unfolding s(3) entry_at_attach[OF ne(2) es'] entry_at_detach[OF ne(1) ex] sub by simp
qed


section \<open>Executor and undo: proofs\<close>


lemma rename_entry_cases:
  "(\<exists>t'. os_rename (files s) old new = Inr t' \<and>
      files (rename_entry old new False m s) = t' \<and>
      rename_log (rename_entry old new False m s) = rename_log s @ [(new, old)]) \<or>
   ((\<exists>e. os_rename (files s) old new = Inl e) \<and>
      files (rename_entry old new False m s) = files s \<and>
      rename_log (rename_entry old new False m s) = rename_log s)"
  by (cases "os_rename (files s) old new") (simp_all add: rename_entry_def)





lemma dry_run_loop:
  "rename_loop plan True m s =
     s\<lparr>report := report s @
          map (\<lambda>(old_path, new_path). Dry_run_info (basename old_path) m (basename new_path)) plan\<rparr>"
proof (induction plan arbitrary: s)
  case Nil
  show ?case by simp
next
  case (Cons item plan)
  obtain old new where item: "item = (old, new)" by (cases item)
  show ?case unfolding item by (simp add: Cons rename_entry_def)
qed

text \<open>
  Claim C9. In a dry run the executor loop leaves the file system as it is and appends
  nothing to the rename log, for every plan: each item only adds its line to the report.
  A dry run of \<open>rename_recursively\<close> that returns has changed no file and returns the empty
  log.
\<close>

theorem dry_run_changes_nothing:
  "rename_loop plan True m \<lparr>files = t, rename_log = [], report = []\<rparr> =
     \<lparr>files = t, rename_log = [],
      report = map (\<lambda>(old_path, new_path).
                      Dry_run_info (basename old_path) m (basename new_path)) plan\<rparr> \<and>
   (case rename_recursively t directory_path True of
      Inl e \<Rightarrow> True
    | Inr s \<Rightarrow> files s = t \<and> rename_log s = [])"
  by (simp add: dry_run_loop rename_recursively_def Let_def
        split: option.splits node.splits sum.splits)

theorem dry_run_changes_nothing_witness:
  "rename_loop (collect_renames [''root''] spec_listing) True 12
     \<lparr>files = Dir [(''root'', Dir spec_listing)], rename_log = [], report = []\<rparr> =
   \<lparr>files = Dir [(''root'', Dir spec_listing)], rename_log = [],
    report = [Dry_run_info ''sub_file.TXT'' 12 ''sub-file.txt'',
              Dry_run_info ''A Dir'' 12 ''a-dir'']\<rparr>"
  using dry_run_changes_nothing[of "collect_renames [''root''] spec_listing" 12
      "Dir [(''root'', Dir spec_listing)]" "[''root'']"]
  unfolding spec_plan by (simp add: basename_def)

lemma rename_loop_append:
  "rename_loop (a @ b) dry m s = rename_loop b dry m (rename_loop a dry m s)"
proof (induction a arbitrary: s)
  case Nil
  show ?case by simp
next
  case (Cons item a)
  obtain old new where item: "item = (old, new)" by (cases item)
  show ?case unfolding item by (simp add: Cons)
qed

lemma rename_log_grows:
  "\<exists>l. rename_log (rename_loop plan dry m s) = rename_log s @ l"
proof (induction plan arbitrary: s)
  case Nil
  show ?case by simp
next
  case (Cons item plan)
  obtain old new where item: "item = (old, new)" by (cases item)
  have "\<exists>l. rename_log (rename_entry old new dry m s) = rename_log s @ l"
    by (simp add: rename_entry_def Let_def split: sum.splits)
  then obtain l1 where l1: "rename_log (rename_entry old new dry m s) = rename_log s @ l1" ..
  from Cons[of "rename_entry old new dry m s"] obtain l2 where
    "rename_log (rename_loop plan dry m (rename_entry old new dry m s)) =
       rename_log (rename_entry old new dry m s) @ l2" ..
  then show ?case unfolding item using l1 by simp
qed

lemma os_rename_keeps:
  assumes ok: "os_rename t old new = Inr t'" and np: "\<not> prefix old p"
    and ex: "lookup t p \<noteq> None"
  shows "lookup t' p \<noteq> None"
proof (cases "old = new")
  case True
  with ok have "t' = t" by (simp add: os_rename_self)
  with ex show ?thesis by simp
next
  case False
  note moved = entry_at_os_rename[OF ok False, of p]
  from os_rename_moves[OF ok False] obtain s where
    s: "lookup t old = Some s"
    and tgt: "lookup t new = None \<or> lookup t new = Some (Dir []) \<or>
              (\<exists>n. lookup t new = Some n \<and> \<not> isdir n)" by blast
  show ?thesis
  proof (cases "prefix new p")
    case no: False
    then have "entry_at t' p = entry_at t p" using moved np by simp
    moreover have "entry_at t p \<noteq> None" using ex by (simp add: entry_at_None)
    ultimately have "entry_at t' p \<noteq> None" by simp
    then show ?thesis by (simp add: entry_at_None)
  next
    case True
    then obtain r where r: "p = new @ r" by (auto simp: prefix_def)
    show ?thesis
    proof (cases r)
      case Nil
      then have "entry_at t' p = entry_at t old" using moved r by simp
      moreover have "entry_at t old \<noteq> None" using s by (simp add: entry_at_None)
      ultimately have "entry_at t' p \<noteq> None" by simp
      then show ?thesis by (simp add: entry_at_None)
    next
      case (Cons c r')
      from ex r Cons have "(case lookup t new of None \<Rightarrow> None | Some n \<Rightarrow> lookup n (c # r')) \<noteq> None"
        by (simp add: lookup_append)
      with tgt have False by (auto split: option.splits node.splits elim: isdir.elims)
      then show ?thesis ..
    qed
  qed
qed

lemma rename_loop_keeps:
  "\<forall>y\<in>set pre. \<not> prefix (fst y) p \<Longrightarrow> lookup (files s) p \<noteq> None \<Longrightarrow>
     lookup (files (rename_loop pre False m s)) p \<noteq> None"
proof (induction pre arbitrary: s)
  case Nil
  then show ?case by simp
next
  case (Cons item pre)
  obtain old new where item: "item = (old, new)" by (cases item)
  have np: "\<not> prefix old p" using Cons.prems(1) item by simp
  have "lookup (files (rename_entry old new False m s)) p \<noteq> None"
    using rename_entry_cases[of s old new m] os_rename_keeps[OF _ np Cons.prems(2)]
    using Cons.prems(2) by auto
  with Cons.IH[of "rename_entry old new False m s"] Cons.prems(1) show ?case
    unfolding item by simp
qed

lemma identity_item_logged:
  assumes "plan = pre @ (p, p) # post" "p \<noteq> []" "lookup (files s) p \<noteq> None"
    and "\<forall>y\<in>set pre. \<not> prefix (fst y) p"
  shows "(p, p) \<in> set (rename_log (rename_loop plan False m s))"
proof -
  let ?s1 = "rename_loop pre False m s"
  have ex: "lookup (files ?s1) p \<noteq> None" using assms(4,3) by (rule rename_loop_keeps)
  have "os_rename (files ?s1) p p = Inr (files ?s1)" using assms(2) ex by (rule os_rename_self_ok)
  then have "(p, p) \<in> set (rename_log (rename_entry p p False m ?s1))"
    by (simp add: rename_entry_def)
  moreover obtain l where
    "rename_log (rename_loop post False m (rename_entry p p False m ?s1)) =
       rename_log (rename_entry p p False m ?s1) @ l"
    using rename_log_grows by blast
  ultimately show ?thesis unfolding assms(1) by (simp add: rename_loop_append)
qed

lemma undo_identity_pair: "fst (undo_loop [(p, p)] m (x, out)) = x"
  by (cases "os_rename x p p") (simp_all add: Let_def os_rename_self)

text \<open>
  Claim C10, for the directories the walker reaches. If a directory below the walked one is
  reached (neither it nor a directory on the way to it is hidden or a link) and its name is
  already normalized, the plan holds the item that renames its path to the same path, the
  run succeeds on that item and its log holds the identity pair; undoing such a pair
  leaves the file system as it is.
\<close>

theorem normalized_directory_is_logged:
  assumes root: "lookup t directory_path = Some (Dir listing)"
    and wf: "wf_node (Dir listing)"
    and vis: "reached listing rel"
    and dir: "lookup (Dir listing) rel = Some (Dir sub)"
    and norm: "get_new_name (last rel) = last rel"
  shows "(directory_path @ rel, directory_path @ rel)
           \<in> set (collect_renames directory_path listing) \<and>
         (\<exists>s. rename_recursively t directory_path False = Inr s \<and>
              (directory_path @ rel, directory_path @ rel) \<in> set (rename_log s)) \<and>
         fst (undo_loop [(directory_path @ rel, directory_path @ rel)] m (x, out)) = x"
proof (intro conjI)
  let ?p = "directory_path @ rel"
  let ?plan = "collect_renames directory_path listing"
  have rel: "rel \<noteq> []" using vis by (rule reached_nonempty)
  then have "butlast rel @ [get_new_name (last rel)] = rel" using norm by simp
  with collect_renames_has_dir[OF vis dir, of directory_path]
  show mem: "(?p, ?p) \<in> set ?plan" by simp
  then obtain pre post where split: "?plan = pre @ (?p, ?p) # post"
    by (meson split_list)
  have sorted: "sorted_wrt (\<lambda>y z. \<not> strict_prefix (fst y) (fst z)) ?plan"
    using wf by (rule collect_renames_sorted)
  have dist: "distinct (map fst ?plan)" using wf by (rule collect_renames_distinct)
  have before: "\<forall>y\<in>set pre. \<not> prefix (fst y) ?p"
  proof
    fix y assume y: "y \<in> set pre"
    have "\<not> strict_prefix (fst y) ?p"
      using sorted y unfolding split by (simp add: sorted_wrt_append)
    moreover have "fst y \<noteq> ?p" using dist y unfolding split by force
    ultimately show "\<not> prefix (fst y) ?p" by (simp add: strict_prefix_def)
  qed
  have ex: "lookup t ?p \<noteq> None" using root dir by (simp add: lookup_append)
  obtain a rest where plan: "?plan = a # rest" using mem by (cases ?plan) auto
  obtain m' where m': "py_max (map (\<lambda>(old, new). length (basename old)) ?plan) = Inr m'"
    unfolding plan by simp
  let ?s = "rename_loop ?plan False m' \<lparr>files = t, rename_log = [], report = []\<rparr>"
  have "rename_recursively t directory_path False = Inr ?s"
    using root m' by (simp add: rename_recursively_def)
  moreover have "(?p, ?p) \<in> set (rename_log ?s)"
    using split _ _ before by (rule identity_item_logged) (use rel ex in simp_all)
  ultimately show "\<exists>s. rename_recursively t directory_path False = Inr s \<and>
      (?p, ?p) \<in> set (rename_log s)" by blast
  show "fst (undo_loop [(?p, ?p)] m (x, out)) = x" by (rule undo_identity_pair)
qed

theorem normalized_directory_is_logged_witness:
  "reached docs_listing [''docs''] \<and>
   ([''root'', ''docs''], [''root'', ''docs'']) \<in> set (collect_renames [''root''] docs_listing) \<and>
   (\<exists>s. rename_recursively (Dir [(''root'', Dir docs_listing)]) [''root''] False = Inr s \<and>
        ([''root'', ''docs''], [''root'', ''docs'']) \<in> set (rename_log s))"
proof -
  have h1: "lookup (Dir [(''root'', Dir docs_listing)]) [''root''] = Some (Dir docs_listing)"
    by simp
  have h2: "wf_node (Dir docs_listing)" by (simp add: docs_listing_def)
  have h3: "reached docs_listing [''docs'']"
    by (simp add: docs_listing_def is_hidden_def basename_def)
  have h4: "lookup (Dir docs_listing) [''docs''] = Some (Dir [(''Read Me.TXT'', File 0)])"
    by (simp add: docs_listing_def)
  have h5: "get_new_name (last [''docs'']) = last [''docs'']" by code_simp
  from normalized_directory_is_logged[OF h1 h2 h3 h4 h5] h3 show ?thesis by simp
qed

text \<open>
  The directory \<open>objects\<close> is not hidden, is no link and has a normalized name, but it
  lies in the hidden directory \<open>.git\<close>: the run renames only \<open>B.txt\<close>.
\<close>

theorem hidden_parent_counterexample:
  "lookup (Dir [(''root'', Dir hidden_listing)]) [''root'', ''.git'', ''objects''] = Some (Dir []) \<and>
   \<not> is_hidden [''root'', ''.git'', ''objects''] \<and>
   get_new_name ''objects'' = ''objects'' \<and>
   rename_recursively (Dir [(''root'', Dir hidden_listing)]) [''root''] False =
     Inr \<lparr>files = Dir [(''root'', Dir [(''.git'', Dir [(''objects'', Dir [])]), (''b.txt'', File 0)])],
          rename_log = [([''root'', ''b.txt''], [''root'', ''B.txt''])],
          report = [Renamed_info ''B.txt'' 5 ''b.txt'']\<rparr>"
  by code_simp

end
